theory Spec2Isabelle
  imports Main "HOL-Library.Word"
begin

section \<open>The LRU cache of \<open>cache/lru.go\<close>\<close>

text \<open>
  The cache keeps a \<open>container/list\<close> of elements, a map from keys to elements of that
  list, and a running \<open>uint64\<close> total of the entries' sizes. The model keeps the
  pointer structure: an element is an address, the heap gives the \<open>entry\<close> each element
  points to, the list is the sequence of addresses from front to back, and the table maps a
  key to an address. Every method holds the mutex for its whole body, so a method is one
  atomic state transformer.
\<close>

subsection \<open>Data\<close>

text \<open>
  Go's \<open>int\<close> is taken at 64 bits (as on amd64 and arm64): a \<open>64 word\<close> read with
  \<open>sint\<close>. The conversion \<open>uint64(x)\<close> keeps the bits. \<open>time.Time\<close> is an
  instant, with \<open>0\<close> for the zero value; the reading of \<open>time.Now()\<close> is an argument
  of each method that calls it.
\<close>

type_synonym uint64 = "64 word"
type_synonym go_int = "64 word"
type_synonym time = nat
type_synonym elem = nat

text \<open>A \<open>Value\<close> is anything with a \<open>Size()\<close> method: a payload and the size it reports.\<close>

datatype Value = Value (payload: string) (Size: go_int)

datatype Item = Item (Key: string) (ItemValue: Value)

record entry =
  key :: string
  value_e :: Value
  size_e :: go_int
  timeAccessed :: time

record LRUCache =
  list_c :: "elem list"
  table :: "string \<rightharpoonup> elem"
  size_c :: uint64
  capacity :: uint64
  heap :: "elem \<Rightarrow> entry"
  next_elem :: elem

text \<open>
  The only run-time failure of the package: \<open>checkCapacity\<close> reads \<open>delElem.Value\<close>
  where \<open>delElem\<close> is \<open>nil\<close> when the list is empty.
\<close>

datatype panic = NilPointerDereference

type_synonym error = string

definition uint64_of_int :: "go_int \<Rightarrow> uint64" where
  "uint64_of_int x = x"

subsection \<open>The operations of \<open>container/list\<close> that the cache uses\<close>

definition PushFront :: "elem \<Rightarrow> elem list \<Rightarrow> elem list" where
  "PushFront e l = e # l"

text \<open>\<open>MoveToFront\<close> and \<open>Remove\<close> do nothing for an element that is not in the list.\<close>

definition MoveToFront :: "elem \<Rightarrow> elem list \<Rightarrow> elem list" where
  "MoveToFront e l = (if e \<in> set l then e # remove1 e l else l)"

definition Remove :: "elem \<Rightarrow> elem list \<Rightarrow> elem list" where
  "Remove e l = (if e \<in> set l then remove1 e l else l)"

definition Back :: "elem list \<Rightarrow> elem option" where
  "Back l = (if l = [] then None else Some (last l))"

definition Front :: "elem list \<Rightarrow> elem option" where
  "Front l = (case l of [] \<Rightarrow> None | e # _ \<Rightarrow> Some e)"

subsection \<open>The cache\<close>

definition zero_entry :: entry where
  "zero_entry = \<lparr>key = [], value_e = Value [] 0, size_e = 0, timeAccessed = 0\<rparr>"

definition NewLRUCache :: "uint64 \<Rightarrow> LRUCache" where
  "NewLRUCache cap =
     \<lparr>list_c = [], table = Map.empty, size_c = 0, capacity = cap,
      heap = (\<lambda>_. zero_entry), next_elem = 0\<rparr>"

definition moveToFront :: "elem \<Rightarrow> time \<Rightarrow> LRUCache \<Rightarrow> LRUCache" where
  "moveToFront element now lru =
     lru\<lparr>list_c := MoveToFront element (list_c lru),
         heap := (heap lru)(element := (heap lru element)\<lparr>timeAccessed := now\<rparr>)\<rparr>"

text \<open>One pass of the loop body of \<open>checkCapacity\<close>, for a back element \<open>delElem\<close>.\<close>

definition evict :: "elem \<Rightarrow> LRUCache \<Rightarrow> LRUCache" where
  "evict delElem lru =
     (let delValue = heap lru delElem
      in lru\<lparr>list_c := Remove delElem (list_c lru),
             table := (table lru)(key delValue := None),
             size_c := size_c lru - uint64_of_int (size_e delValue)\<rparr>)"

function checkCapacity :: "LRUCache \<Rightarrow> panic + LRUCache" where
  "checkCapacity lru =
     (if size_c lru > capacity lru then
        (case Back (list_c lru) of
           None \<Rightarrow> Inl NilPointerDereference
         | Some delElem \<Rightarrow> checkCapacity (evict delElem lru))
      else Inr lru)"
  by pat_completeness auto
termination
proof (relation "measure (\<lambda>lru. length (list_c lru))")
  show "wf (measure (\<lambda>lru. length (list_c lru)))" by simp
next
  fix lru :: LRUCache and delElem :: elem
  assume "Back (list_c lru) = Some delElem"
  then have ne: "list_c lru \<noteq> []" and d: "delElem = last (list_c lru)"
    by (auto simp: Back_def split: if_splits)
  then have "delElem \<in> set (list_c lru)" by simp
  then have "length (Remove delElem (list_c lru)) < length (list_c lru)"
    using ne by (simp add: Remove_def length_remove1)
  then show "(evict delElem lru, lru) \<in> measure (\<lambda>lru. length (list_c lru))"
    by (simp add: evict_def Let_def)
qed

definition addNew :: "string \<Rightarrow> Value \<Rightarrow> time \<Rightarrow> LRUCache \<Rightarrow> panic + LRUCache" where
  "addNew k v now lru =
     (let newEntry = \<lparr>key = k, value_e = v, size_e = Size v, timeAccessed = now\<rparr>;
          element = next_elem lru
      in checkCapacity
           (lru\<lparr>list_c := PushFront element (list_c lru),
                heap := (heap lru)(element := newEntry),
                next_elem := Suc element,
                table := (table lru)(k \<mapsto> element),
                size_c := size_c lru + uint64_of_int (size_e newEntry)\<rparr>))"

definition updateInplace :: "elem \<Rightarrow> Value \<Rightarrow> time \<Rightarrow> LRUCache \<Rightarrow> panic + LRUCache" where
  "updateInplace element v now lru =
     (let valueSize = Size v;
          sizeDiff = valueSize - size_e (heap lru element);
          lru1 = lru\<lparr>heap := (heap lru)(element :=
                        (heap lru element)\<lparr>value_e := v, size_e := valueSize\<rparr>),
                     size_c := size_c lru + uint64_of_int sizeDiff\<rparr>
      in checkCapacity (moveToFront element now lru1))"

definition Get :: "string \<Rightarrow> time \<Rightarrow> LRUCache \<Rightarrow> (Value option \<times> bool) \<times> LRUCache" where
  "Get k now lru =
     (case table lru k of
        None \<Rightarrow> ((None, False), lru)
      | Some element \<Rightarrow>
          (let lru' = moveToFront element now lru
           in ((Some (value_e (heap lru' element)), True), lru')))"

definition Set :: "string \<Rightarrow> Value \<Rightarrow> time \<Rightarrow> LRUCache \<Rightarrow> panic + LRUCache" where
  "Set k v now lru =
     (case table lru k of
        Some element \<Rightarrow> Inr (moveToFront element now lru)
      | None \<Rightarrow> addNew k v now lru)"

definition SetIfAbsent :: "string \<Rightarrow> Value \<Rightarrow> time \<Rightarrow> LRUCache \<Rightarrow> panic + LRUCache" where
  "SetIfAbsent k v now lru =
     (case table lru k of
        None \<Rightarrow> addNew k v now lru
      | Some element \<Rightarrow> Inr lru)"

definition Delete :: "string \<Rightarrow> LRUCache \<Rightarrow> bool \<times> LRUCache" where
  "Delete k lru =
     (case table lru k of
        None \<Rightarrow> (False, lru)
      | Some element \<Rightarrow>
          (True, lru\<lparr>list_c := Remove element (list_c lru),
                     table := (table lru)(k := None),
                     size_c := size_c lru - uint64_of_int (size_e (heap lru element))\<rparr>))"

definition Clear :: "LRUCache \<Rightarrow> LRUCache" where
  "Clear lru = lru\<lparr>list_c := [], table := Map.empty, size_c := 0\<rparr>"

definition SetCapacity :: "uint64 \<Rightarrow> LRUCache \<Rightarrow> panic + LRUCache" where
  "SetCapacity cap lru = checkCapacity (lru\<lparr>capacity := cap\<rparr>)"

definition Stats :: "LRUCache \<Rightarrow> uint64 \<times> uint64 \<times> uint64 \<times> time" where
  "Stats lru =
     (let oldest = (case Back (list_c lru) of
                      Some lastElem \<Rightarrow> timeAccessed (heap lru lastElem)
                    | None \<Rightarrow> 0)
      in (of_nat (length (list_c lru)), size_c lru, capacity lru, oldest))"

definition Keys :: "LRUCache \<Rightarrow> string list" where
  "Keys lru = map (\<lambda>element. key (heap lru element)) (list_c lru)"

definition Items :: "LRUCache \<Rightarrow> Item list" where
  "Items lru =
     map (\<lambda>element. Item (key (heap lru element)) (value_e (heap lru element))) (list_c lru)"

subsection \<open>Persistence\<close>

text \<open>
  \<open>encoding/gob\<close> is outside the repository: the encoder and the decoder are arguments.
  \<open>decode r\<close> is what \<open>decoder.Decode(&items)\<close> yields on the stream \<open>r\<close>: an error,
  or the whole slice of items. \<open>clock i\<close> is the reading of \<open>time.Now()\<close> while the
  \<open>i\<close>-th item of the slice is applied.
\<close>

definition SaveItems :: "(Item list \<Rightarrow> error + 'w) \<Rightarrow> LRUCache \<Rightarrow> error + 'w" where
  "SaveItems encode lru = encode (Items lru)"

fun loadLoop :: "Item list \<Rightarrow> (nat \<Rightarrow> time) \<Rightarrow> nat \<Rightarrow> LRUCache \<Rightarrow> panic + LRUCache" where
  "loadLoop [] clock i lru = Inr lru"
| "loadLoop (item # items) clock i lru =
     (case (case table lru (Key item) of
              Some element \<Rightarrow> updateInplace element (ItemValue item) (clock i) lru
            | None \<Rightarrow> addNew (Key item) (ItemValue item) (clock i) lru) of
        Inl p \<Rightarrow> Inl p
      | Inr lru' \<Rightarrow> loadLoop items clock (Suc i) lru')"

definition LoadItems ::
  "('r \<Rightarrow> error + Item list) \<Rightarrow> 'r \<Rightarrow> (nat \<Rightarrow> time) \<Rightarrow> LRUCache
     \<Rightarrow> panic + (error option \<times> LRUCache)" where
  "LoadItems decode r clock lru =
     (case decode r of
        Inl err \<Rightarrow> Inr (Some err, lru)
      | Inr items \<Rightarrow>
          (case loadLoop items clock 0 lru of
             Inl p \<Rightarrow> Inl p
           | Inr lru' \<Rightarrow> Inr (None, lru')))"

subsection \<open>\<open>StatsJSON\<close>\<close>

text \<open>
  \<open>%v\<close> prints a \<open>uint64\<close> in decimal. The text that \<open>%v\<close> gives for a
  \<open>time.Time\<close> is the standard library's and is an argument. A \<open>nil\<close> receiver is
  \<open>None\<close>.
\<close>

function fmt_nat :: "nat \<Rightarrow> string" where
  "fmt_nat n =
     (if n < 10 then [''0123456789'' ! n]
      else fmt_nat (n div 10) @ [''0123456789'' ! (n mod 10)])"
  by pat_completeness auto
termination
  by (relation "measure (\<lambda>n. n)") auto

definition fmt_uint64 :: "uint64 \<Rightarrow> string" where
  "fmt_uint64 w = fmt_nat (unat w)"

definition StatsJSON :: "(time \<Rightarrow> string) \<Rightarrow> LRUCache option \<Rightarrow> string" where
  \<open>StatsJSON fmt_time lru =
     (case lru of
        None \<Rightarrow> ''{}''
      | Some c \<Rightarrow>
          (case Stats c of (len, sz, cap, oldest) \<Rightarrow>
             ''{"Length": '' @ fmt_uint64 len @ '', "Size": '' @ fmt_uint64 sz @
             '', "Capacity": '' @ fmt_uint64 cap @ '', "OldestAccess": "'' @
             fmt_time oldest @ ''"}''))\<close>

subsection \<open>Sequences of public operations\<close>

datatype 'r op =
    OpGet string time
  | OpSet string Value time
  | OpSetIfAbsent string Value time
  | OpDelete string
  | OpClear
  | OpSetCapacity uint64
  | OpLoad 'r "nat \<Rightarrow> time"

fun apply_op :: "('r \<Rightarrow> error + Item list) \<Rightarrow> 'r op \<Rightarrow> LRUCache \<Rightarrow> panic + LRUCache" where
  "apply_op decode (OpGet k now) lru = Inr (snd (Get k now lru))"
| "apply_op decode (OpSet k v now) lru = Set k v now lru"
| "apply_op decode (OpSetIfAbsent k v now) lru = SetIfAbsent k v now lru"
| "apply_op decode (OpDelete k) lru = Inr (snd (Delete k lru))"
| "apply_op decode OpClear lru = Inr (Clear lru)"
| "apply_op decode (OpSetCapacity cap) lru = SetCapacity cap lru"
| "apply_op decode (OpLoad r clock) lru =
     (case LoadItems decode r clock lru of Inl p \<Rightarrow> Inl p | Inr (err, lru') \<Rightarrow> Inr lru')"

fun run :: "('r \<Rightarrow> error + Item list) \<Rightarrow> 'r op list \<Rightarrow> LRUCache \<Rightarrow> panic + LRUCache" where
  "run decode [] lru = Inr lru"
| "run decode (x # xs) lru =
     (case apply_op decode x lru of Inl p \<Rightarrow> Inl p | Inr lru' \<Rightarrow> run decode xs lru')"

subsection \<open>Consistency of a cache state\<close>

text \<open>
  The accounted size is the sum of the cached sizes, added up as the code adds them (in
  \<open>uint64\<close>); the list has no element twice; the table maps exactly the key of each
  element of the list to that element; and the elements of the list have been allocated.
\<close>

definition sum_sizes :: "(elem \<Rightarrow> entry) \<Rightarrow> elem list \<Rightarrow> uint64" where
  "sum_sizes h l = (\<Sum>e\<leftarrow>l. uint64_of_int (size_e (h e)))"

definition accounted :: "LRUCache \<Rightarrow> bool" where
  "accounted lru \<longleftrightarrow> size_c lru = sum_sizes (heap lru) (list_c lru)"

definition consistent :: "LRUCache \<Rightarrow> bool" where
  "consistent lru \<longleftrightarrow>
     accounted lru \<and>
     distinct (list_c lru) \<and>
     (\<forall>k e. table lru k = Some e \<longleftrightarrow> e \<in> set (list_c lru) \<and> key (heap lru e) = k) \<and>
     (\<forall>e \<in> set (list_c lru). e < next_elem lru)"

text \<open>
  The cached sizes read as integers: every one is non-negative, as the contract of
  \<open>Size()\<close> asks, and the accounted size is their sum as an integer, so no addition of
  the accounting has wrapped around.
\<close>

definition total_size :: "(elem \<Rightarrow> entry) \<Rightarrow> elem list \<Rightarrow> int" where
  "total_size h l = (\<Sum>e\<leftarrow>l. sint (size_e (h e)))"

definition exact :: "LRUCache \<Rightarrow> bool" where
  "exact lru \<longleftrightarrow>
     (\<forall>e \<in> set (list_c lru). 0 \<le> sint (size_e (heap lru e))) \<and>
     uint (size_c lru) = total_size (heap lru) (list_c lru)"

text \<open>Every entry of the list caches the size that its value reports.\<close>

definition sizes_cached :: "LRUCache \<Rightarrow> bool" where
  "sizes_cached lru \<longleftrightarrow>
     (\<forall>e \<in> set (list_c lru). size_e (heap lru e) = Size (value_e (heap lru e)))"

text \<open>
  A concrete state to evaluate on: capacity 8, after \<open>Set("a", x)\<close> at time 10 with
  \<open>x.Size() = 2\<close> and \<open>Set("b", y)\<close> at time 20 with \<open>y.Size() = 3\<close>.
\<close>

definition example_cache :: LRUCache where
  "example_cache =
     \<lparr>list_c = [1, 0],
      table = [''a'' \<mapsto> 0, ''b'' \<mapsto> 1],
      size_c = 5, capacity = 8,
      heap = (\<lambda>_. zero_entry)
        (0 := \<lparr>key = ''a'', value_e = Value ''x'' 2, size_e = 2, timeAccessed = 10\<rparr>,
         1 := \<lparr>key = ''b'', value_e = Value ''y'' 3, size_e = 3, timeAccessed = 20\<rparr>),
      next_elem = 2\<rparr>"

text \<open>
  A decoder on byte streams to evaluate on: the empty stream is a truncated one, any other
  stream holds the one item \<open>("c", z)\<close>.
\<close>

definition truncated_decoder :: "8 word list \<Rightarrow> error + Item list" where
  "truncated_decoder r =
     (if r = [] then Inl ''unexpected EOF'' else Inr [Item ''c'' (Value ''z'' 7)])"


section \<open>Eviction\<close>

declare checkCapacity.simps [simp del]

declare fmt_nat.simps [simp del]

lemma sum_sizes_Nil [simp]: "sum_sizes h [] = 0"
  by (simp add: sum_sizes_def)

lemma sum_sizes_Cons [simp]:
  "sum_sizes h (e # l) = uint64_of_int (size_e (h e)) + sum_sizes h l"
  by (simp add: sum_sizes_def)

lemma sum_sizes_remove1:
  "e \<in> set l \<Longrightarrow> sum_sizes h (remove1 e l) = sum_sizes h l - uint64_of_int (size_e (h e))"
  by (simp add: sum_sizes_def sum_list_map_remove1 [of e l "\<lambda>x. uint64_of_int (size_e (h x))"])

lemma sum_sizes_cong:
  "(\<And>x. x \<in> set l \<Longrightarrow> size_e (h x) = size_e (h' x)) \<Longrightarrow> sum_sizes h l = sum_sizes h' l"
  unfolding sum_sizes_def by (rule arg_cong [where f = sum_list], rule map_cong [OF refl]) simp

lemma sum_sizes_upd_notin [simp]: "e \<notin> set l \<Longrightarrow> sum_sizes (h(e := x)) l = sum_sizes h l"
  by (rule sum_sizes_cong) auto

lemma sum_sizes_upd_in:
  assumes "distinct l" "e \<in> set l"
  shows "sum_sizes (h(e := x)) l =
           sum_sizes h l - uint64_of_int (size_e (h e)) + uint64_of_int (size_e x)"
proof -
  let ?h' = "h(e := x)"
  have a: "sum_sizes ?h' (remove1 e l) = sum_sizes ?h' l - uint64_of_int (size_e (?h' e))"
    using assms(2) by (rule sum_sizes_remove1)
  have b: "sum_sizes ?h' (remove1 e l) = sum_sizes h (remove1 e l)"
    using assms(1) by (intro sum_sizes_upd_notin) simp
  have c: "sum_sizes h (remove1 e l) = sum_sizes h l - uint64_of_int (size_e (h e))"
    using assms(2) by (rule sum_sizes_remove1)
  have "sum_sizes ?h' l - uint64_of_int (size_e x) = sum_sizes h l - uint64_of_int (size_e (h e))"
    using a b c by simp
  then show ?thesis by (simp add: algebra_simps)
qed

lemma accounted_evict:
  assumes "accounted lru" "e \<in> set (list_c lru)"
  shows "accounted (evict e lru)"
  using assms by (simp add: accounted_def evict_def Let_def Remove_def sum_sizes_remove1)

lemma accounted_empty: "accounted lru \<Longrightarrow> list_c lru = [] \<Longrightarrow> size_c lru = 0"
  by (simp add: accounted_def)

lemma checkCapacity_accounted:
  "accounted lru \<Longrightarrow>
     \<exists>lru' n. checkCapacity lru = Inr lru' \<and> length (list_c lru') + n = length (list_c lru)
        \<and> size_c lru' \<le> capacity lru' \<and> accounted lru'"
proof (induction lru rule: checkCapacity.induct)
  case (1 lru)
  show ?case
  proof (cases "size_c lru > capacity lru")
    case False
    then show ?thesis using "1.prems" by (simp add: checkCapacity.simps [of lru])
  next
    case True
    with "1.prems" have ne: "list_c lru \<noteq> []"
      using accounted_empty [of lru] by auto
    then have B: "Back (list_c lru) = Some (last (list_c lru))" by (simp add: Back_def)
    let ?e = "last (list_c lru)"
    have mem: "?e \<in> set (list_c lru)" using ne by simp
    have acc: "accounted (evict ?e lru)" using "1.prems" mem by (rule accounted_evict)
    from "1.IH" [OF True B acc] obtain lru' n where
      r: "checkCapacity (evict ?e lru) = Inr lru'"
      and l: "length (list_c lru') + n = length (list_c (evict ?e lru))"
      and c: "size_c lru' \<le> capacity lru'" and a: "accounted lru'" by blast
    have "length (list_c (evict ?e lru)) + 1 = length (list_c lru)"
      using mem ne by (simp add: evict_def Let_def Remove_def length_remove1)
    with l have "length (list_c lru') + Suc n = length (list_c lru)" by simp
    moreover have "checkCapacity lru = Inr lru'"
      using True B r by (simp add: checkCapacity.simps [of lru])
    ultimately show ?thesis using c a by blast
  qed
qed

lemma consistentD_table:
  "consistent lru \<Longrightarrow> table lru k = Some e \<longleftrightarrow> e \<in> set (list_c lru) \<and> key (heap lru e) = k"
  by (simp add: consistent_def)

lemma consistent_evict:
  assumes c: "consistent lru" and mem: "e \<in> set (list_c lru)"
  shows "consistent (evict e lru)"
proof -
  have d: "distinct (list_c lru)" using c by (simp add: consistent_def)
  have t: "\<And>k x. table lru k = Some x \<longleftrightarrow> x \<in> set (list_c lru) \<and> key (heap lru x) = k"
    using c by (simp add: consistent_def)
  have b: "\<forall>x \<in> set (list_c lru). x < next_elem lru" using c by (simp add: consistent_def)
  have 1: "accounted (evict e lru)" using c mem by (simp add: consistent_def accounted_evict)
  have l: "list_c (evict e lru) = remove1 e (list_c lru)"
    using mem by (simp add: evict_def Let_def Remove_def)
  have 2: "distinct (list_c (evict e lru))" using d by (simp add: l)
  have 3: "table (evict e lru) k = Some x \<longleftrightarrow>
             x \<in> set (list_c (evict e lru)) \<and> key (heap (evict e lru) x) = k" for k x
  proof (cases "k = key (heap lru e)")
    case True
    have "\<not> (x \<in> set (list_c lru) \<and> x \<noteq> e \<and> key (heap lru x) = key (heap lru e))"
    proof
      assume a: "x \<in> set (list_c lru) \<and> x \<noteq> e \<and> key (heap lru x) = key (heap lru e)"
      then have "table lru (key (heap lru e)) = Some x" using t by blast
      moreover have "table lru (key (heap lru e)) = Some e" using t mem by blast
      ultimately show False using a by simp
    qed
    then show ?thesis using True d by (auto simp: l) (simp_all add: evict_def Let_def)
  next
    case False
    have "table (evict e lru) k = table lru k" using False by (simp add: evict_def Let_def)
    moreover have "heap (evict e lru) = heap lru" by (simp add: evict_def Let_def)
    ultimately show ?thesis using False d t [of k x] by (auto simp: l)
  qed
  have 4: "\<forall>x \<in> set (list_c (evict e lru)). x < next_elem (evict e lru)"
    using b d by (auto simp: l) (simp add: evict_def Let_def)
  show ?thesis unfolding consistent_def using 1 2 3 4 by blast
qed

lemma remove1_last_distinct: "distinct xs \<Longrightarrow> xs \<noteq> [] \<Longrightarrow> remove1 (last xs) xs = butlast xs"
proof -
  assume d: "distinct xs" and ne: "xs \<noteq> []"
  then have xs: "xs = butlast xs @ [last xs]" by simp
  then have "last xs \<notin> set (butlast xs)" using d by (metis distinct_butlast distinct.simps(2) distinct1_rotate rotate1.simps(2))
  then have "remove1 (last xs) (butlast xs @ [last xs]) = butlast xs" by (simp add: remove1_append)
  then show ?thesis using xs by simp
qed

lemma checkCapacity_fits: "size_c lru \<le> capacity lru \<Longrightarrow> checkCapacity lru = Inr lru"
  by (simp add: checkCapacity.simps [of lru] not_less [symmetric])

lemma checkCapacity_over:
  "capacity lru < size_c lru \<Longrightarrow> list_c lru \<noteq> [] \<Longrightarrow>
     checkCapacity lru = checkCapacity (evict (last (list_c lru)) lru)"
  by (simp add: checkCapacity.simps [of lru] Back_def)

lemma evict_fields [simp]:
  "heap (evict e lru) = heap lru" "capacity (evict e lru) = capacity lru"
  "next_elem (evict e lru) = next_elem lru"
  by (simp_all add: evict_def Let_def)

lemma checkCapacity_consistent:
  "consistent lru \<Longrightarrow>
     \<exists>lru' n. checkCapacity lru = Inr lru' \<and> consistent lru' \<and> size_c lru' \<le> capacity lru'
        \<and> list_c lru' = take n (list_c lru) \<and> heap lru' = heap lru
        \<and> capacity lru' = capacity lru \<and> next_elem lru' = next_elem lru"
proof (induction lru rule: checkCapacity.induct)
  case (1 lru)
  show ?case
  proof (cases "size_c lru > capacity lru")
    case False
    then have "checkCapacity lru = Inr lru" by (simp add: checkCapacity_fits)
    moreover have "list_c lru = take (length (list_c lru)) (list_c lru)" by simp
    ultimately show ?thesis using "1.prems" False by (metis not_less)
  next
    case True
    have acc: "accounted lru" and d: "distinct (list_c lru)"
      using "1.prems" by (simp_all add: consistent_def)
    with True have ne: "list_c lru \<noteq> []" using accounted_empty [of lru] by auto
    then have B: "Back (list_c lru) = Some (last (list_c lru))" by (simp add: Back_def)
    let ?e = "last (list_c lru)"
    have mem: "?e \<in> set (list_c lru)" using ne by simp
    have con: "consistent (evict ?e lru)" using "1.prems" mem by (rule consistent_evict)
    from "1.IH" [OF True B con] obtain lru' n where
      r: "checkCapacity (evict ?e lru) = Inr lru'" and c: "consistent lru'"
      and le: "size_c lru' \<le> capacity lru'"
      and l: "list_c lru' = take n (list_c (evict ?e lru))"
      and h: "heap lru' = heap lru" "capacity lru' = capacity lru" "next_elem lru' = next_elem lru"
      by auto
    have "list_c (evict ?e lru) = butlast (list_c lru)"
      using mem d ne by (simp add: evict_def Let_def Remove_def remove1_last_distinct)
    then have "list_c lru' = take (min n (length (list_c lru) - 1)) (list_c lru)"
      using l by (simp add: butlast_conv_take min.commute)
    moreover have "checkCapacity lru = Inr lru'" using True ne r by (simp add: checkCapacity_over)
    ultimately show ?thesis using c le h by blast
  qed
qed

lemma moveToFront_fields [simp]:
  "size_e (heap (moveToFront e now lru) x) = size_e (heap lru x)"
  "key (heap (moveToFront e now lru) x) = key (heap lru x)"
  "value_e (heap (moveToFront e now lru) x) = value_e (heap lru x)"
  "table (moveToFront e now lru) = table lru"
  "size_c (moveToFront e now lru) = size_c lru"
  "capacity (moveToFront e now lru) = capacity lru"
  "next_elem (moveToFront e now lru) = next_elem lru"
  "list_c (moveToFront e now lru) = MoveToFront e (list_c lru)"
  by (simp_all add: moveToFront_def)

lemma set_MoveToFront [simp]: "set (MoveToFront e l) = set l"
proof (cases "e \<in> set l")
  case True
  have 1: "x \<in> set (remove1 e l) \<longleftrightarrow> x \<in> set l" if "x \<noteq> e" for x
    using that by (rule in_set_remove1)
  have "set (e # remove1 e l) = set l"
  proof (rule set_eqI)
    fix x show "x \<in> set (e # remove1 e l) \<longleftrightarrow> x \<in> set l"
      using True 1 [of x] by (cases "x = e") simp_all
  qed
  then show ?thesis using True by (simp add: MoveToFront_def)
qed (simp add: MoveToFront_def)

lemma distinct_MoveToFront [simp]: "distinct l \<Longrightarrow> distinct (MoveToFront e l)"
  by (simp add: MoveToFront_def)

lemma sum_sizes_MoveToFront [simp]: "sum_sizes h (MoveToFront e l) = sum_sizes h l"
  by (simp add: MoveToFront_def sum_sizes_remove1)

lemma sum_sizes_moveToFront [simp]:
  "sum_sizes (heap (moveToFront e now lru)) l = sum_sizes (heap lru) l"
  by (rule sum_sizes_cong) simp

lemma consistent_moveToFront: "consistent lru \<Longrightarrow> consistent (moveToFront e now lru)"
  by (simp add: consistent_def accounted_def)

section \<open>The mutating helpers keep a state consistent\<close>

lemma consistent_pushed:
  assumes c: "consistent lru" and abs: "table lru k = None"
  shows "consistent
           (lru\<lparr>list_c := PushFront (next_elem lru) (list_c lru),
                heap := (heap lru)(next_elem lru :=
                          \<lparr>key = k, value_e = v, size_e = Size v, timeAccessed = now\<rparr>),
                next_elem := Suc (next_elem lru),
                table := (table lru)(k \<mapsto> next_elem lru),
                size_c := size_c lru + uint64_of_int (Size v)\<rparr>)"
    (is "consistent ?lru'")
proof -
  let ?n = "next_elem lru"
  have d: "distinct (list_c lru)" and acc: "accounted lru"
    and b: "\<forall>x \<in> set (list_c lru). x < ?n"
    and t: "\<And>k x. table lru k = Some x \<longleftrightarrow> x \<in> set (list_c lru) \<and> key (heap lru x) = k"
    using c by (simp_all add: consistent_def)
  have fresh: "?n \<notin> set (list_c lru)" using b by auto
  have 1: "accounted ?lru'"
    using acc fresh by (simp add: accounted_def PushFront_def)
  have 2: "distinct (list_c ?lru')" using d fresh by (simp add: PushFront_def)
  have nokey: "\<And>x. x \<in> set (list_c lru) \<Longrightarrow> key (heap lru x) \<noteq> k"
  proof -
    fix x assume "x \<in> set (list_c lru)"
    then have "table lru (key (heap lru x)) = Some x" using t by blast
    then show "key (heap lru x) \<noteq> k" using abs by auto
  qed
  have 3: "table ?lru' k' = Some x \<longleftrightarrow> x \<in> set (list_c ?lru') \<and> key (heap ?lru' x) = k'" for k' x
    using t [of k' x] nokey [of x] fresh by (auto simp: PushFront_def)
  have 4: "\<forall>x \<in> set (list_c ?lru'). x < next_elem ?lru'"
    using b by (auto simp: PushFront_def)
  show ?thesis unfolding consistent_def using 1 2 3 4 by blast
qed

lemma addNew_consistent:
  assumes "consistent lru" "table lru k = None"
  shows "\<exists>lru'. addNew k v now lru = Inr lru' \<and> consistent lru' \<and> size_c lru' \<le> capacity lru'
            \<and> capacity lru' = capacity lru"
  using checkCapacity_consistent [OF consistent_pushed [OF assms, of v now]]
  by (auto simp: addNew_def Let_def)

lemma consistent_replaced:
  assumes c: "consistent lru" and mem: "e \<in> set (list_c lru)"
  shows "consistent
           (lru\<lparr>heap := (heap lru)(e := (heap lru e)\<lparr>value_e := v, size_e := Size v\<rparr>),
                size_c := size_c lru + uint64_of_int (Size v - size_e (heap lru e))\<rparr>)"
    (is "consistent ?lru'")
proof -
  have d: "distinct (list_c lru)" and acc: "accounted lru"
    and b: "\<forall>x \<in> set (list_c lru). x < next_elem lru"
    and t: "\<And>k x. table lru k = Some x \<longleftrightarrow> x \<in> set (list_c lru) \<and> key (heap lru x) = k"
    using c by (simp_all add: consistent_def)
  have 1: "accounted ?lru'"
    using acc by (simp add: accounted_def sum_sizes_upd_in [OF d mem] uint64_of_int_def)
  have k: "\<And>x. key (heap ?lru' x) = key (heap lru x)" by simp
  have 3: "table ?lru' k' = Some x \<longleftrightarrow> x \<in> set (list_c ?lru') \<and> key (heap ?lru' x) = k'" for k' x
    using t [of k' x] by (simp only: k) simp
  show ?thesis unfolding consistent_def using 1 d 3 b by simp
qed

lemma updateInplace_consistent:
  assumes "consistent lru" "e \<in> set (list_c lru)"
  shows "\<exists>lru'. updateInplace e v now lru = Inr lru' \<and> consistent lru' \<and> size_c lru' \<le> capacity lru'
            \<and> capacity lru' = capacity lru"
  using checkCapacity_consistent [OF consistent_moveToFront [OF consistent_replaced [OF assms, of v], of e now]]
  by (auto simp: updateInplace_def Let_def)

section \<open>Every public operation keeps a state consistent\<close>

lemma consistent_mem: "consistent lru \<Longrightarrow> table lru k = Some e \<Longrightarrow> e \<in> set (list_c lru)"
  by (simp add: consistent_def)

lemma consistent_key: "consistent lru \<Longrightarrow> table lru k = Some e \<Longrightarrow> key (heap lru e) = k"
  by (simp add: consistent_def)

lemma Delete_evict:
  "consistent lru \<Longrightarrow> table lru k = Some e \<Longrightarrow> Delete k lru = (True, evict e lru)"
  by (simp add: Delete_def evict_def Let_def consistent_key)

lemma consistent_NewLRUCache: "consistent (NewLRUCache cap)"
  by (simp add: consistent_def accounted_def NewLRUCache_def)

lemma consistent_Clear: "consistent lru \<Longrightarrow> consistent (Clear lru)"
  by (simp add: consistent_def accounted_def Clear_def)

lemma consistent_Delete: "consistent lru \<Longrightarrow> consistent (snd (Delete k lru))"
proof (cases "table lru k")
  case None
  assume "consistent lru"
  then show ?thesis using None by (simp add: Delete_def)
next
  case (Some e)
  assume c: "consistent lru"
  then show ?thesis using Some
    by (simp add: Delete_evict consistent_evict consistent_mem)
qed

lemma consistent_Get: "consistent lru \<Longrightarrow> consistent (snd (Get k now lru))"
  by (simp add: Get_def Let_def consistent_moveToFront split: option.splits)

lemma consistent_capacity: "consistent lru \<Longrightarrow> consistent (lru\<lparr>capacity := cap\<rparr>)"
  by (simp add: consistent_def accounted_def)

lemma SetCapacity_consistent:
  "consistent lru \<Longrightarrow> \<exists>lru'. SetCapacity cap lru = Inr lru' \<and> consistent lru'"
  using checkCapacity_consistent [OF consistent_capacity, of lru cap]
  by (auto simp: SetCapacity_def)

lemma Set_consistent:
  "consistent lru \<Longrightarrow> \<exists>lru'. Set k v now lru = Inr lru' \<and> consistent lru'"
  using addNew_consistent [of lru k v now]
  by (auto simp: Set_def consistent_moveToFront split: option.splits)

lemma SetIfAbsent_consistent:
  "consistent lru \<Longrightarrow> \<exists>lru'. SetIfAbsent k v now lru = Inr lru' \<and> consistent lru'"
  using addNew_consistent [of lru k v now]
  by (auto simp: SetIfAbsent_def split: option.splits)

lemma loadLoop_consistent:
  "consistent lru \<Longrightarrow> \<exists>lru'. loadLoop items clock i lru = Inr lru' \<and> consistent lru'"
proof (induction items arbitrary: i lru)
  case Nil
  then show ?case by simp
next
  case (Cons item items)
  show ?case
  proof (cases "table lru (Key item)")
    case None
    from addNew_consistent [OF Cons.prems None, of "ItemValue item" "clock i"]
    obtain lru1 where 1: "addNew (Key item) (ItemValue item) (clock i) lru = Inr lru1"
      and c1: "consistent lru1" by blast
    from Cons.IH [OF c1, of "Suc i"] show ?thesis using None 1 by simp
  next
    case (Some e)
    from updateInplace_consistent [OF Cons.prems consistent_mem [OF Cons.prems Some], of "ItemValue item" "clock i"]
    obtain lru1 where 1: "updateInplace e (ItemValue item) (clock i) lru = Inr lru1"
      and c1: "consistent lru1" by blast
    from Cons.IH [OF c1, of "Suc i"] show ?thesis using Some 1 by simp
  qed
qed

lemma LoadItems_consistent:
  "consistent lru \<Longrightarrow> \<exists>err lru'. LoadItems decode r clock lru = Inr (err, lru') \<and> consistent lru'"
proof (cases "decode r")
  case (Inl err)
  assume "consistent lru"
  then show ?thesis using Inl by (simp add: LoadItems_def)
next
  case (Inr items)
  assume "consistent lru"
  from loadLoop_consistent [OF this, of items clock 0]
  obtain lru' where "loadLoop items clock 0 lru = Inr lru'" "consistent lru'" by blast
  then show ?thesis using Inr by (simp add: LoadItems_def)
qed

lemma apply_op_consistent:
  "consistent lru \<Longrightarrow> \<exists>lru'. apply_op decode x lru = Inr lru' \<and> consistent lru'"
proof (cases x)
  case (OpLoad r clock)
  assume "consistent lru"
  from LoadItems_consistent [OF this, of decode r clock] show ?thesis using OpLoad by auto
qed (auto simp: consistent_Get consistent_Delete consistent_Clear
      intro: Set_consistent SetIfAbsent_consistent SetCapacity_consistent)

lemma run_consistent:
  "consistent lru \<Longrightarrow> \<exists>lru'. run decode ops lru = Inr lru' \<and> consistent lru'"
proof (induction ops arbitrary: lru)
  case Nil
  then show ?case by simp
next
  case (Cons x ops)
  from apply_op_consistent [OF Cons.prems, of decode x]
  obtain lru1 where 1: "apply_op decode x lru = Inr lru1" and c1: "consistent lru1" by blast
  from Cons.IH [OF c1] show ?case using 1 by simp
qed

section \<open>\<open>SetIfAbsent\<close> on a present key\<close>

text \<open>
  C7. When the key \<open>k\<close> is in the table, at an element whose entry holds the value
  \<open>v1\<close>, \<open>SetIfAbsent k v2\<close> returns the state it was given: the stored value, the
  accounted size, the order of the list and the time of last access are all as before, and
  the element is not moved to the front.
\<close>

theorem SetIfAbsent_present_noop:
  "table lru k = Some e \<Longrightarrow> value_e (heap lru e) = v1 \<Longrightarrow>
     SetIfAbsent k v2 now lru = Inr lru"
  by (simp add: SetIfAbsent_def)

theorem SetIfAbsent_present_noop_witness:
  "table example_cache ''a'' = Some 0 \<and> value_e (heap example_cache 0) = Value ''x'' 2 \<and>
   SetIfAbsent ''a'' (Value ''z'' 7) 30 example_cache = Inr example_cache"
  using SetIfAbsent_present_noop [of example_cache "''a''" 0 "Value ''x'' 2" "Value ''z'' 7" 30]
  by (simp add: example_cache_def)

section \<open>Sizes as integers\<close>

lemma sum_sizes_total: "sum_sizes h l = word_of_int (total_size h l)"
  by (induction l) (simp_all add: total_size_def uint64_of_int_def)

lemma exact_accounted: "exact lru \<Longrightarrow> accounted lru"
proof -
  assume "exact lru"
  then have "uint (size_c lru) = total_size (heap lru) (list_c lru)" by (simp add: exact_def)
  then have "size_c lru = word_of_int (total_size (heap lru) (list_c lru))"
    by (metis word_of_int_uint)
  then show ?thesis by (simp add: accounted_def sum_sizes_total)
qed

lemma total_size_nonneg:
  "\<forall>e \<in> set l. 0 \<le> sint (size_e (h e)) \<Longrightarrow> 0 \<le> total_size h l"
  by (induction l) (simp_all add: total_size_def)

lemma accounted_exact:
  assumes "accounted lru" "\<forall>e \<in> set (list_c lru). 0 \<le> sint (size_e (heap lru e))"
    "total_size (heap lru) (list_c lru) < 2 ^ 64"
  shows "uint (size_c lru) = total_size (heap lru) (list_c lru)"
proof -
  have "size_c lru = word_of_int (total_size (heap lru) (list_c lru))"
    using assms(1) by (simp add: accounted_def sum_sizes_total)
  moreover have "0 \<le> total_size (heap lru) (list_c lru)"
    using assms(2) by (rule total_size_nonneg)
  ultimately show ?thesis using assms(3)
    by (simp add: uint_word_of_int take_bit_eq_mod)
qed

lemma example_consistent: "consistent example_cache"
  by (auto simp: consistent_def accounted_def example_cache_def uint64_of_int_def split: if_splits)

section \<open>The eviction loop ends and never reads an empty list\<close>

text \<open>
  C9. \<open>checkCapacity\<close> is a total function: each pass of its loop either fails on the
  empty list or takes one element out of the list, which is its termination proof. From any
  state whose accounted size is the sum of the cached sizes (in particular from every state
  the public operations reach, and from every state whose sizes are non-negative and add up
  to the accounted size as integers, see \<open>run_consistent\<close> and \<open>exact_accounted\<close>), the
  loop returns normally, so it never reads the back of an empty list; it has made \<open>n\<close>
  passes, one per element removed, with \<open>n\<close> at most the length of the list; and it stops
  with the size within the capacity.
\<close>

theorem checkCapacity_terminates:
  "accounted lru \<Longrightarrow>
     \<exists>lru' n. checkCapacity lru = Inr lru' \<and> n \<le> length (list_c lru) \<and>
        length (list_c lru') + n = length (list_c lru) \<and> \<not> capacity lru' < size_c lru'"
proof -
  assume "accounted lru"
  from checkCapacity_accounted [OF this] obtain lru' n where
    "checkCapacity lru = Inr lru'" "length (list_c lru') + n = length (list_c lru)"
    "size_c lru' \<le> capacity lru'" by blast
  moreover from this have "n \<le> length (list_c lru)" by simp
  ultimately show ?thesis by (metis not_less)
qed

lemma example_small_accounted: "accounted (example_cache\<lparr>capacity := 2\<rparr>)"
  by (simp add: accounted_def example_cache_def uint64_of_int_def)

theorem checkCapacity_terminates_witness:
  "accounted (example_cache\<lparr>capacity := 2\<rparr>) \<and>
   (\<exists>lru' n. checkCapacity (example_cache\<lparr>capacity := 2\<rparr>) = Inr lru' \<and> n \<le> 2 \<and>
      length (list_c lru') + n = 2 \<and> \<not> capacity lru' < size_c lru')"
proof -
  have a: "accounted (example_cache\<lparr>capacity := 2\<rparr>)" by (rule example_small_accounted)
  have l: "length (list_c (example_cache\<lparr>capacity := 2\<rparr>)) = 2"
    by (simp add: example_cache_def)
  from checkCapacity_terminates [OF a] show ?thesis using a unfolding l by blast
qed

lemma example_small_eval:
  "checkCapacity (example_cache\<lparr>capacity := 2\<rparr>) =
     Inr (example_cache\<lparr>capacity := 2, list_c := [], table := Map.empty, size_c := 0\<rparr>)"
  by (simp add: checkCapacity.simps example_cache_def Back_def evict_def Remove_def uint64_of_int_def Let_def)

section \<open>The consistency invariant\<close>

lemma consistent_inj: "consistent lru \<Longrightarrow> inj_on (\<lambda>e. key (heap lru e)) (set (list_c lru))"
proof (rule inj_onI)
  fix x y
  assume c: "consistent lru" and x: "x \<in> set (list_c lru)" and y: "y \<in> set (list_c lru)"
    and k: "key (heap lru x) = key (heap lru y)"
  have "table lru (key (heap lru x)) = Some x" using c x by (simp add: consistent_def)
  moreover have "table lru (key (heap lru x)) = Some y" using c y k by (simp add: consistent_def)
  ultimately show "x = y" by simp
qed

lemma consistent_distinct_Keys: "consistent lru \<Longrightarrow> distinct (Keys lru)"
  using consistent_inj [of lru] by (simp add: Keys_def distinct_map consistent_def)

lemma consistent_dom: "consistent lru \<Longrightarrow> dom (table lru) = set (Keys lru)"
proof -
  assume c: "consistent lru"
  have t: "\<And>k e. table lru k = Some e \<longleftrightarrow> e \<in> set (list_c lru) \<and> key (heap lru e) = k"
    using c by (simp add: consistent_def)
  show ?thesis
  proof (rule set_eqI)
    fix k
    show "k \<in> dom (table lru) \<longleftrightarrow> k \<in> set (Keys lru)"
      using t [of k] by (auto simp: Keys_def dom_def)
  qed
qed

lemma consistent_card: "consistent lru \<Longrightarrow> card (dom (table lru)) = length (list_c lru)"
  using distinct_card [OF consistent_distinct_Keys, of lru]
  by (simp add: consistent_dom) (simp add: Keys_def)

text \<open>
  C4, amended. From a fresh cache, every sequence of \<open>Get\<close>, \<open>Set\<close>, \<open>SetIfAbsent\<close>,
  \<open>Delete\<close>, \<open>Clear\<close>, \<open>SetCapacity\<close> and \<open>LoadItems\<close> runs without a panic and
  ends in a state where the accounted size is the sum of the cached sizes of the elements of
  the list, where the table maps a key to an element exactly when that element is in the list
  and carries that key, where no key and no element occurs twice in the list, and where the
  table has as many keys as the list has elements. The sum is the one the code computes, in
  \<open>uint64\<close>, that is, modulo \<open>2 ^ 64\<close>; when the cached sizes are non-negative and
  their sum as integers is below \<open>2 ^ 64\<close>, the accounted size is that integer sum. Every
  prefix of a sequence is a sequence, so this holds after each operation. What fails
  without the bound is shown in the section on the wrap-around of the accounted size.
\<close>

theorem reachable_consistent:
  "\<exists>lru. run decode ops (NewLRUCache cap) = Inr lru \<and>
     size_c lru = (\<Sum>e\<leftarrow>list_c lru. uint64_of_int (size_e (heap lru e))) \<and>
     ((\<forall>e \<in> set (list_c lru). 0 \<le> sint (size_e (heap lru e))) \<and>
        total_size (heap lru) (list_c lru) < 2 ^ 64 \<longrightarrow>
      uint (size_c lru) = total_size (heap lru) (list_c lru)) \<and>
     (\<forall>k e. table lru k = Some e \<longleftrightarrow> e \<in> set (list_c lru) \<and> key (heap lru e) = k) \<and>
     dom (table lru) = set (Keys lru) \<and> distinct (Keys lru) \<and> distinct (list_c lru) \<and>
     card (dom (table lru)) = length (list_c lru)"
proof -
  from run_consistent [OF consistent_NewLRUCache, of decode ops cap]
  obtain lru where r: "run decode ops (NewLRUCache cap) = Inr lru" and c: "consistent lru"
    by blast
  have a: "accounted lru" using c by (simp add: consistent_def)
  have 1: "size_c lru = (\<Sum>e\<leftarrow>list_c lru. uint64_of_int (size_e (heap lru e)))"
    using a by (simp add: accounted_def sum_sizes_def)
  have 2: "(\<forall>e \<in> set (list_c lru). 0 \<le> sint (size_e (heap lru e))) \<and>
        total_size (heap lru) (list_c lru) < 2 ^ 64 \<longrightarrow>
      uint (size_c lru) = total_size (heap lru) (list_c lru)"
    using accounted_exact [OF a] by blast
  have 3: "\<forall>k e. table lru k = Some e \<longleftrightarrow> e \<in> set (list_c lru) \<and> key (heap lru e) = k"
    using c by (simp add: consistent_def)
  have 4: "distinct (list_c lru)" using c by (simp add: consistent_def)
  show ?thesis
    using r 1 2 3 4 consistent_dom [OF c] consistent_distinct_Keys [OF c] consistent_card [OF c]
    by blast
qed

lemma run_example:
  "run decode [OpSet ''a'' (Value ''x'' 2) 10, OpSet ''b'' (Value ''y'' 3) 20] (NewLRUCache 8)
     = Inr example_cache"
  by (simp add: Set_def addNew_def NewLRUCache_def Let_def PushFront_def uint64_of_int_def
      checkCapacity_fits example_cache_def)

theorem reachable_consistent_witness:
  "run (\<lambda>r. Inr r) [OpSet ''a'' (Value ''x'' 2) 10, OpSet ''b'' (Value ''y'' 3) 20] (NewLRUCache 8)
     = Inr example_cache \<and>
   uint (size_c example_cache) = total_size (heap example_cache) (list_c example_cache) \<and>
   uint (size_c example_cache) = 5 \<and>
   table example_cache ''b'' = Some 1 \<and> 1 \<in> set (list_c example_cache) \<and>
   key (heap example_cache 1) = ''b'' \<and>
   dom (table example_cache) = set (Keys example_cache) \<and>
   Keys example_cache = [''b'', ''a''] \<and>
   card (dom (table example_cache)) = length (list_c example_cache)"
proof -
  let ?ops = "[OpSet ''a'' (Value ''x'' 2) 10, OpSet ''b'' (Value ''y'' 3) 20]"
  have e: "run (\<lambda>r. Inr r) ?ops (NewLRUCache 8) = Inr example_cache" by (rule run_example)
  have n: "\<forall>e \<in> set (list_c example_cache). 0 \<le> sint (size_e (heap example_cache e))"
    by (simp add: example_cache_def)
  have t: "total_size (heap example_cache) (list_c example_cache) = 5"
    by (simp add: example_cache_def total_size_def)
  from reachable_consistent [of "\<lambda>r. Inr r" ?ops 8] e
  have A: "(\<forall>e \<in> set (list_c example_cache). 0 \<le> sint (size_e (heap example_cache e))) \<and>
        total_size (heap example_cache) (list_c example_cache) < 2 ^ 64 \<longrightarrow>
      uint (size_c example_cache) = total_size (heap example_cache) (list_c example_cache)"
    and B: "dom (table example_cache) = set (Keys example_cache)"
    and C: "card (dom (table example_cache)) = length (list_c example_cache)"
    by auto
  have "total_size (heap example_cache) (list_c example_cache) < 2 ^ 64" by (simp add: t)
  with A n have X: "uint (size_c example_cache) = total_size (heap example_cache) (list_c example_cache)"
    by blast
  have Y: "uint (size_c example_cache) = 5" by (simp add: example_cache_def)
  have Z: "table example_cache ''b'' = Some 1 \<and> 1 \<in> set (list_c example_cache) \<and>
   key (heap example_cache 1) = ''b'' \<and> Keys example_cache = [''b'', ''a'']"
    by (simp add: example_cache_def Keys_def)
  from e X Y Z B C show ?thesis by blast
qed

section \<open>\<open>Delete\<close>\<close>

lemma Delete_absent: "table lru k = None \<Longrightarrow> Delete k lru = (False, lru)"
  by (simp add: Delete_def)

lemma Delete_present:
  "table lru k = Some e \<Longrightarrow>
     Delete k lru =
       (True, lru\<lparr>list_c := Remove e (list_c lru), table := (table lru)(k := None),
                  size_c := size_c lru - uint64_of_int (size_e (heap lru e))\<rparr>)"
  by (simp add: Delete_def)

lemma Delete_present_gone:
  assumes c: "consistent lru" and t: "table lru k = Some e"
  shows "e \<notin> set (list_c (snd (Delete k lru)))" "k \<notin> set (Keys (snd (Delete k lru)))"
    "length (list_c (snd (Delete k lru))) + 1 = length (list_c lru)"
proof -
  have d: "distinct (list_c lru)" using c by (simp add: consistent_def)
  have mem: "e \<in> set (list_c lru)" using c t by (rule consistent_mem)
  have l: "list_c (snd (Delete k lru)) = remove1 e (list_c lru)"
    using mem by (simp add: Delete_present [OF t] Remove_def)
  show "e \<notin> set (list_c (snd (Delete k lru)))" using d by (simp add: l)
  show "length (list_c (snd (Delete k lru))) + 1 = length (list_c lru)"
    using mem by (simp add: l length_remove1) (cases "list_c lru", auto)
  have c': "consistent (snd (Delete k lru))" using c by (rule consistent_Delete)
  have "table (snd (Delete k lru)) k = None" by (simp add: Delete_present [OF t])
  then have "k \<notin> dom (table (snd (Delete k lru)))" by auto
  then show "k \<notin> set (Keys (snd (Delete k lru)))" using consistent_dom [OF c'] by simp
qed

text \<open>
  C8. For a key that is not in the table, \<open>Delete\<close> returns \<open>false\<close> and the state it
  was given, so \<open>Stats\<close> gives the same four values afterwards. For a key in the table at
  element \<open>e\<close>, it returns \<open>true\<close>, removes \<open>e\<close> from the list and the key from the
  table and subtracts the cached size of \<open>e\<close> from the accounted size; in a consistent state
  the element and the key are then gone from the list, which is one shorter.
\<close>

theorem Delete_spec:
  "(table lru k = None \<longrightarrow>
      Delete k lru = (False, lru) \<and> Stats (snd (Delete k lru)) = Stats lru) \<and>
   (\<forall>e. table lru k = Some e \<longrightarrow>
      fst (Delete k lru) = True \<and>
      list_c (snd (Delete k lru)) = Remove e (list_c lru) \<and>
      table (snd (Delete k lru)) = (table lru)(k := None) \<and>
      size_c (snd (Delete k lru)) = size_c lru - uint64_of_int (size_e (heap lru e)) \<and>
      capacity (snd (Delete k lru)) = capacity lru \<and>
      heap (snd (Delete k lru)) = heap lru) \<and>
   (\<forall>e. consistent lru \<and> table lru k = Some e \<longrightarrow>
      e \<notin> set (list_c (snd (Delete k lru))) \<and>
      k \<notin> set (Keys (snd (Delete k lru))) \<and>
      table (snd (Delete k lru)) k = None \<and>
      length (list_c (snd (Delete k lru))) + 1 = length (list_c lru))"
proof (intro conjI allI impI)
  fix e assume a: "consistent lru \<and> table lru k = Some e"
  then show "e \<notin> set (list_c (snd (Delete k lru)))" "k \<notin> set (Keys (snd (Delete k lru)))"
    "length (list_c (snd (Delete k lru))) + 1 = length (list_c lru)"
    using Delete_present_gone [of lru k e] by simp_all
  show "table (snd (Delete k lru)) k = None" using a by (simp add: Delete_present)
qed (simp_all add: Delete_absent Delete_present)

theorem Delete_spec_witness:
  "table example_cache ''c'' = None \<and>
   Delete ''c'' example_cache = (False, example_cache) \<and>
   Stats (snd (Delete ''c'' example_cache)) = (2, 5, 8, 10) \<and>
   Stats example_cache = (2, 5, 8, 10) \<and>
   consistent example_cache \<and> table example_cache ''a'' = Some 0 \<and>
   fst (Delete ''a'' example_cache) = True \<and>
   list_c (snd (Delete ''a'' example_cache)) = [1] \<and>
   Keys (snd (Delete ''a'' example_cache)) = [''b''] \<and>
   table (snd (Delete ''a'' example_cache)) ''a'' = None \<and>
   size_c (snd (Delete ''a'' example_cache)) = 3"
proof -
  have n: "table example_cache ''c'' = None" by (simp add: example_cache_def)
  have s: "table example_cache ''a'' = Some 0" by (simp add: example_cache_def)
  have st: "Stats example_cache = (2, 5, 8, 10)"
    by (simp add: Stats_def example_cache_def Back_def)
  from Delete_spec [of example_cache "''c''"] n
  have 1: "Delete ''c'' example_cache = (False, example_cache)"
    and 2: "Stats (snd (Delete ''c'' example_cache)) = Stats example_cache" by blast+
  from Delete_spec [of example_cache "''a''"] s example_consistent
  have 3: "fst (Delete ''a'' example_cache) = True"
    and 4: "list_c (snd (Delete ''a'' example_cache)) = Remove 0 (list_c example_cache)"
    and 5: "size_c (snd (Delete ''a'' example_cache)) =
              size_c example_cache - uint64_of_int (size_e (heap example_cache 0))"
    and 6: "table (snd (Delete ''a'' example_cache)) ''a'' = None"
    and 7: "heap (snd (Delete ''a'' example_cache)) = heap example_cache"
    by blast+
  have l4: "list_c (snd (Delete ''a'' example_cache)) = [1]"
    using 4 by (simp add: Remove_def example_cache_def)
  have s5: "size_c (snd (Delete ''a'' example_cache)) = 3"
    using 5 by (simp add: example_cache_def uint64_of_int_def)
  have 8: "Keys (snd (Delete ''a'' example_cache)) = [''b'']"
    by (simp add: Keys_def l4 7) (simp add: example_cache_def)
  from n s st 1 2 3 l4 s5 6 8 example_consistent show ?thesis by simp
qed

section \<open>\<open>Set\<close>\<close>

text \<open>
  C2. For a key in the table at element \<open>e\<close>, \<open>Set\<close> returns normally; the list is the
  old one with \<open>e\<close> moved to the front, the entry of \<open>e\<close> has the new time of access and
  its old key, value and cached size (whatever size the new value reports), every other
  entry, the table, the accounted size and the capacity are as before. For a key that is
  not in the table, \<open>Set\<close> is \<open>addNew\<close>: a new element with the size the value reports
  goes to the front, the size is added to the accounted size, and \<open>checkCapacity\<close> runs.
\<close>

theorem Set_existing_touch_only:
  "(\<forall>e. table lru k = Some e \<longrightarrow>
      (\<exists>lru'. Set k v now lru = Inr lru' \<and>
         list_c lru' = MoveToFront e (list_c lru) \<and>
         (e \<in> set (list_c lru) \<longrightarrow> list_c lru' = e # remove1 e (list_c lru)) \<and>
         timeAccessed (heap lru' e) = now \<and>
         key (heap lru' e) = key (heap lru e) \<and>
         value_e (heap lru' e) = value_e (heap lru e) \<and>
         size_e (heap lru' e) = size_e (heap lru e) \<and>
         (\<forall>x. x \<noteq> e \<longrightarrow> heap lru' x = heap lru x) \<and>
         table lru' = table lru \<and> size_c lru' = size_c lru \<and>
         capacity lru' = capacity lru \<and> next_elem lru' = next_elem lru)) \<and>
   (table lru k = None \<longrightarrow>
      Set k v now lru =
        checkCapacity
          (lru\<lparr>list_c := next_elem lru # list_c lru,
               heap := (heap lru)(next_elem lru :=
                         \<lparr>key = k, value_e = v, size_e = Size v, timeAccessed = now\<rparr>),
               next_elem := Suc (next_elem lru),
               table := (table lru)(k \<mapsto> next_elem lru),
               size_c := size_c lru + uint64_of_int (Size v)\<rparr>))"
  by (auto simp: Set_def moveToFront_def MoveToFront_def addNew_def Let_def PushFront_def)

theorem Set_existing_touch_only_witness:
  "table example_cache ''a'' = Some 0 \<and>
   (\<exists>lru'. Set ''a'' (Value ''z'' 7) 30 example_cache = Inr lru' \<and>
      list_c lru' = [0, 1] \<and> timeAccessed (heap lru' 0) = 30 \<and>
      value_e (heap lru' 0) = Value ''x'' 2 \<and> size_e (heap lru' 0) = 2 \<and>
      size_c lru' = 5) \<and>
   table example_cache ''c'' = None \<and>
   (\<exists>lru'. Set ''c'' (Value ''z'' 7) 30 example_cache = Inr lru' \<and>
      list_c lru' = [2] \<and> value_e (heap lru' 2) = Value ''z'' 7 \<and> size_e (heap lru' 2) = 7 \<and>
      size_c lru' = 7)"
proof -
  have s: "table example_cache ''a'' = Some 0" and n: "table example_cache ''c'' = None"
    by (simp_all add: example_cache_def)
  from Set_existing_touch_only [of example_cache "''a''" "Value ''z'' 7" 30] s
  obtain lru' where a: "Set ''a'' (Value ''z'' 7) 30 example_cache = Inr lru'"
    and b: "list_c lru' = MoveToFront 0 (list_c example_cache)"
    "timeAccessed (heap lru' 0) = 30"
    "value_e (heap lru' 0) = value_e (heap example_cache 0)"
    "size_e (heap lru' 0) = size_e (heap example_cache 0)"
    "size_c lru' = size_c example_cache"
    by blast
  have 1: "\<exists>lru'. Set ''a'' (Value ''z'' 7) 30 example_cache = Inr lru' \<and>
      list_c lru' = [0, 1] \<and> timeAccessed (heap lru' 0) = 30 \<and>
      value_e (heap lru' 0) = Value ''x'' 2 \<and> size_e (heap lru' 0) = 2 \<and>
      size_c lru' = 5"
    using a b by (simp add: example_cache_def MoveToFront_def)
  from Set_existing_touch_only [of example_cache "''c''" "Value ''z'' 7" 30] n
  have "Set ''c'' (Value ''z'' 7) 30 example_cache =
        checkCapacity
          (example_cache\<lparr>list_c := next_elem example_cache # list_c example_cache,
               heap := (heap example_cache)(next_elem example_cache :=
                         \<lparr>key = ''c'', value_e = Value ''z'' 7, size_e = Size (Value ''z'' 7), timeAccessed = 30\<rparr>),
               next_elem := Suc (next_elem example_cache),
               table := (table example_cache)(''c'' \<mapsto> next_elem example_cache),
               size_c := size_c example_cache + uint64_of_int (Size (Value ''z'' 7))\<rparr>)"
    by blast
  then have 2: "\<exists>lru'. Set ''c'' (Value ''z'' 7) 30 example_cache = Inr lru' \<and>
      list_c lru' = [2] \<and> value_e (heap lru' 2) = Value ''z'' 7 \<and> size_e (heap lru' 2) = 7 \<and>
      size_c lru' = 7"
    by (simp add: example_cache_def checkCapacity.simps Back_def evict_def Remove_def
        uint64_of_int_def Let_def)
  from s n 1 2 show ?thesis by blast
qed

section \<open>\<open>LoadItems\<close> and a decoding error\<close>

lemma LoadItems_decode_error:
  "decode r = Inl err \<Longrightarrow> LoadItems decode r clock lru = Inr (Some err, lru)"
  by (simp add: LoadItems_def)

lemma LoadItems_error_inv:
  "LoadItems decode r clock lru = Inr (Some err, lru') \<Longrightarrow> decode r = Inl err \<and> lru' = lru"
  by (auto simp: LoadItems_def split: sum.splits)

text \<open>
  C3, as stated, fails: \<open>LoadItems\<close> decodes the whole slice before it takes the lock and
  applies any item, and returns at once when decoding fails. No decoder, stream, clock and
  state make it return a decoding error together with a state other than the one it was
  given.
\<close>

theorem LoadItems_partial_counterexample:
  "\<not> (\<exists>(decode :: 8 word list \<Rightarrow> error + Item list) r clock lru err lru'.
        LoadItems decode r clock lru = Inr (Some err, lru') \<and> lru' \<noteq> lru)"
proof
  assume "\<exists>(decode :: 8 word list \<Rightarrow> error + Item list) r clock lru err lru'.
        LoadItems decode r clock lru = Inr (Some err, lru') \<and> lru' \<noteq> lru"
  then obtain decode :: "8 word list \<Rightarrow> error + Item list" and r clock lru err lru'
    where a: "LoadItems decode r clock lru = Inr (Some err, lru')" and b: "lru' \<noteq> lru"
    by blast
  from LoadItems_error_inv [OF a] b show False by simp
qed

text \<open>
  C3, amended. \<open>LoadItems\<close> returns an error exactly when the decoder fails on the stream;
  it then returns the decoder's error and leaves the cache as it was: no item of the stream
  has been applied.
\<close>

theorem LoadItems_error_unchanged:
  "(decode r = Inl err \<longrightarrow> LoadItems decode r clock lru = Inr (Some err, lru)) \<and>
   (LoadItems decode r clock lru = Inr (Some err, lru') \<longrightarrow> decode r = Inl err \<and> lru' = lru)"
proof (intro conjI impI)
  assume "decode r = Inl err"
  then show "LoadItems decode r clock lru = Inr (Some err, lru)" by (rule LoadItems_decode_error)
next
  assume a: "LoadItems decode r clock lru = Inr (Some err, lru')"
  from LoadItems_error_inv [OF a] show "decode r = Inl err" "lru' = lru" by simp_all
qed


theorem LoadItems_error_unchanged_witness:
  "truncated_decoder [] = Inl ''unexpected EOF'' \<and>
   LoadItems truncated_decoder [] (\<lambda>i. 30) example_cache = Inr (Some ''unexpected EOF'', example_cache)"
proof -
  have d: "truncated_decoder [] = Inl ''unexpected EOF''" by (simp add: truncated_decoder_def)
  from LoadItems_error_unchanged [of truncated_decoder "[]" "''unexpected EOF''" "\<lambda>i. 30" example_cache] d
  show ?thesis by blast
qed

section \<open>\<open>StatsJSON\<close>\<close>

text \<open>
  C10. On a \<open>nil\<close> receiver \<open>StatsJSON\<close> returns \<open>{}\<close>. Otherwise it prints, as one
  JSON object, the four values that \<open>Stats\<close> returns: the length of the list, the
  accounted size, the capacity, and the time of last access of the back element (the zero
  time when the list is empty).
\<close>

theorem StatsJSON_spec:
  \<open>StatsJSON fmt_time None = ''{}'' \<and>
   StatsJSON fmt_time (Some c) =
     ''{"Length": '' @ fmt_uint64 (fst (Stats c)) @
     '', "Size": '' @ fmt_uint64 (fst (snd (Stats c))) @
     '', "Capacity": '' @ fmt_uint64 (fst (snd (snd (Stats c)))) @
     '', "OldestAccess": "'' @ fmt_time (snd (snd (snd (Stats c)))) @ ''"}'' \<and>
   Stats c = (of_nat (length (list_c c)), size_c c, capacity c,
              (case Back (list_c c) of Some lastElem \<Rightarrow> timeAccessed (heap c lastElem) | None \<Rightarrow> 0))\<close>
  by (simp add: StatsJSON_def Stats_def split: prod.splits)

lemma fmt_examples:
  "fmt_uint64 2 = ''2''" "fmt_uint64 5 = ''5''" "fmt_uint64 8 = ''8''" "fmt_nat 10 = ''10''"
  by (simp_all add: fmt_uint64_def fmt_nat.simps [of 2] fmt_nat.simps [of 5]
        fmt_nat.simps [of 8] fmt_nat.simps [of 10] fmt_nat.simps [of "Suc 0"])

lemma Stats_example: "Stats example_cache = (2, 5, 8, 10)"
  by (simp add: Stats_def example_cache_def Back_def)

theorem StatsJSON_spec_witness:
  \<open>StatsJSON fmt_nat None = ''{}'' \<and>
   StatsJSON fmt_nat (Some example_cache) =
     ''{"Length": 2, "Size": 5, "Capacity": 8, "OldestAccess": "10"}''\<close>
proof -
  from StatsJSON_spec [of fmt_nat example_cache]
  have a: \<open>StatsJSON fmt_nat None = ''{}''\<close>
    and b: \<open>StatsJSON fmt_nat (Some example_cache) =
     ''{"Length": '' @ fmt_uint64 (fst (Stats example_cache)) @
     '', "Size": '' @ fmt_uint64 (fst (snd (Stats example_cache))) @
     '', "Capacity": '' @ fmt_uint64 (fst (snd (snd (Stats example_cache)))) @
     '', "OldestAccess": "'' @ fmt_nat (snd (snd (snd (Stats example_cache)))) @ ''"}''\<close>
    by blast+
  have \<open>StatsJSON fmt_nat (Some example_cache) =
     ''{"Length": 2, "Size": 5, "Capacity": 8, "OldestAccess": "10"}''\<close>
    unfolding b Stats_example by (simp add: fmt_examples)
  with a show ?thesis by (rule conjI)
qed

section \<open>Eviction does not spare an oversized entry\<close>



lemma sint_as_uint: "sint (w :: 64 word) = uint w - 2 ^ 64 * of_bool (bit (uint w) 63)"
proof -
  have "sint w = signed_take_bit 63 (uint w)" by (simp add: sint_uint)
  also have "\<dots> = take_bit 64 (uint w) - 2 ^ 64 * of_bool (bit (uint w) 63)"
    using signed_take_bit_eq_take_bit_minus [of 63 "uint w"] by simp
  also have "take_bit 64 (uint w) = uint w"
  proof -
    have "0 \<le> uint w" "uint w < 2 ^ 64" using uint_bounded [of w] by simp_all
    then show ?thesis by (simp add: take_bit_eq_mod)
  qed
  finally show ?thesis .
qed

lemma uint_eq_sint: "0 \<le> sint (w :: 64 word) \<Longrightarrow> uint w = sint w"
proof -
  assume a: "0 \<le> sint w"
  have "uint w < 2 ^ 64" using uint_bounded [of w] by simp
  then show ?thesis using a sint_as_uint [of w] by (cases "bit (uint w) 63") simp_all
qed











section \<open>The accounted size wraps around\<close>

text \<open>
  C4, as stated, fails in its first part: the accounting is a \<open>uint64\<close> and
  \<open>addNew\<close> adds to it with no test for overflow. In a fresh cache of capacity
  \<open>2 ^ 64 - 1\<close>, three \<open>Set\<close> calls with values of size \<open>2 ^ 63 - 1\<close> keep all
  three entries, whose sizes add up to 27670116110564327421, while the accounted size is
  9223372036854775805.
\<close>

theorem accounted_size_wraps_counterexample:
  "\<exists>lru. run truncated_decoder
            [OpSet ''a'' (Value ''x'' 0x7FFFFFFFFFFFFFFF) 1,
             OpSet ''b'' (Value ''y'' 0x7FFFFFFFFFFFFFFF) 2,
             OpSet ''c'' (Value ''z'' 0x7FFFFFFFFFFFFFFF) 3]
            (NewLRUCache 0xFFFFFFFFFFFFFFFF) = Inr lru \<and>
     list_c lru = [2, 1, 0] \<and>
     sint (size_e (heap lru 0)) = 9223372036854775807 \<and>
     sint (size_e (heap lru 1)) = 9223372036854775807 \<and>
     sint (size_e (heap lru 2)) = 9223372036854775807 \<and>
     total_size (heap lru) (list_c lru) = 27670116110564327421 \<and>
     uint (size_c lru) = 9223372036854775805 \<and>
     uint (size_c lru) \<noteq> total_size (heap lru) (list_c lru)"
  by (simp add: Set_def addNew_def NewLRUCache_def Let_def PushFront_def uint64_of_int_def
      checkCapacity_fits total_size_def)

section \<open>Eviction follows recency\<close>

text \<open>
  When no sum wraps around, the conditions of the theorem below are conditions on the
  integers: \<open>A\<close> and \<open>B\<close> fit together, \<open>A\<close>, \<open>B\<close> and \<open>C\<close> do not, \<open>A\<close> and
  \<open>C\<close> do.
\<close>

lemma fits_without_wrap:
  fixes a b c cap :: uint64
  assumes "unat a + unat b \<le> unat cap" "unat cap < unat a + unat b + unat c"
    "unat a + unat b + unat c < 2 ^ 64" "unat a + unat c \<le> unat cap"
  shows "a \<le> cap \<and> a + b \<le> cap \<and> cap < a + b + c \<and> a + c \<le> cap"
proof -
  have ab: "unat (a + b) = unat a + unat b"
    using assms(3) by (simp add: unat_add_lem [THEN iffD1])
  have abc: "unat (a + b + c) = unat a + unat b + unat c"
    using assms(3) ab by (simp add: unat_add_lem [THEN iffD1])
  have ac: "unat (a + c) = unat a + unat c"
    using assms(3) by (simp add: unat_add_lem [THEN iffD1])
  show ?thesis using assms ab abc ac by (simp add: word_le_nat_alt word_less_nat_alt)
qed



section \<open>Saving and loading\<close>

lemma total_size_cong:
  "(\<And>x. x \<in> set l \<Longrightarrow> size_e (h x) = size_e (h' x)) \<Longrightarrow> total_size h l = total_size h' l"
  unfolding total_size_def by (rule arg_cong [where f = sum_list], rule map_cong [OF refl]) simp

lemma total_size_upd_notin: "e \<notin> set l \<Longrightarrow> total_size (h(e := x)) l = total_size h l"
  by (rule total_size_cong) auto

lemma total_size_Cons: "total_size h (e # l) = sint (size_e (h e)) + total_size h l"
  by (simp add: total_size_def)

lemma Items_upd_notin:
  "e \<notin> set l \<Longrightarrow>
     map (\<lambda>x. Item (key ((h(e := y)) x)) (value_e ((h(e := y)) x))) l =
     map (\<lambda>x. Item (key (h x)) (value_e (h x))) l"
  by (rule map_cong [OF refl]) auto

lemma addNew_fits:
  assumes c: "consistent lru" and x: "exact lru" and abs: "table lru k = None"
    and nn: "0 \<le> sint (Size v)"
    and fit: "total_size (heap lru) (list_c lru) + sint (Size v) \<le> uint (capacity lru)"
  shows "\<exists>lru'. addNew k v now lru = Inr lru' \<and> consistent lru' \<and> exact lru' \<and>
           Items lru' = Item k v # Items lru \<and> capacity lru' = capacity lru \<and>
           table lru' = (table lru)(k \<mapsto> next_elem lru) \<and>
           total_size (heap lru') (list_c lru') =
             total_size (heap lru) (list_c lru) + sint (Size v)"
proof -
  define p where "p = lru\<lparr>list_c := PushFront (next_elem lru) (list_c lru),
                heap := (heap lru)(next_elem lru :=
                          \<lparr>key = k, value_e = v, size_e = Size v, timeAccessed = now\<rparr>),
                next_elem := Suc (next_elem lru),
                table := (table lru)(k \<mapsto> next_elem lru),
                size_c := size_c lru + uint64_of_int (Size v)\<rparr>"
  have cp: "consistent p" unfolding p_def using c abs by (rule consistent_pushed)
  have fresh: "next_elem lru \<notin> set (list_c lru)" using c by (auto simp: consistent_def)
  have n: "\<forall>y \<in> set (list_c lru). 0 \<le> sint (size_e (heap lru y))"
    and u: "uint (size_c lru) = total_size (heap lru) (list_c lru)"
    using x by (simp_all add: exact_def)
  have tp: "total_size (heap p) (list_c p) = total_size (heap lru) (list_c lru) + sint (Size v)"
    using fresh by (simp add: p_def PushFront_def total_size_Cons total_size_upd_notin)
  have "uint (size_c lru) + uint (Size v) < 2 ^ 64"
    using fit u uint_bounded [of "capacity lru"] by (simp add: uint_eq_sint [OF nn])
  then have "uint (size_c lru + Size v) = uint (size_c lru) + uint (Size v)"
    using uint_add_lem [of "size_c lru" "Size v"] by simp
  then have up: "uint (size_c p) = total_size (heap p) (list_c p)"
    using u tp by (simp add: p_def uint64_of_int_def uint_eq_sint [OF nn])
  have np: "\<forall>y \<in> set (list_c p). 0 \<le> sint (size_e (heap p y))"
    using n nn fresh by (auto simp: p_def PushFront_def)
  have xp: "exact p" unfolding exact_def using up np by blast
  have "uint (size_c p) \<le> uint (capacity p)" using up tp fit by (simp add: p_def)
  then have "size_c p \<le> capacity p" by (simp add: word_le_def)
  then have r: "addNew k v now lru = Inr p"
    by (simp add: addNew_def Let_def p_def [symmetric] checkCapacity_fits)
  have it: "Items p = Item k v # Items lru"
    using fresh by (simp add: Items_def p_def PushFront_def Items_upd_notin)
  show ?thesis using r cp xp it tp by (auto simp: p_def)
qed


lemma loadLoop_fresh:
  assumes "consistent lru" "exact lru" "distinct (map Key its)"
    "\<forall>it \<in> set its. table lru (Key it) = None"
    "\<forall>it \<in> set its. 0 \<le> sint (Size (ItemValue it))"
    "total_size (heap lru) (list_c lru) + (\<Sum>it\<leftarrow>its. sint (Size (ItemValue it)))
       \<le> uint (capacity lru)"
  shows "\<exists>lru'. loadLoop its clock i lru = Inr lru' \<and> consistent lru' \<and>
           Items lru' = rev its @ Items lru \<and> capacity lru' = capacity lru"
  using assms
proof (induction its arbitrary: lru i)
  case Nil
  then show ?case by simp
next
  case (Cons it its)
  have abs: "table lru (Key it) = None" using Cons.prems(4) by simp
  have nn: "0 \<le> sint (Size (ItemValue it))" using Cons.prems(5) by simp
  have rest: "0 \<le> (\<Sum>it\<leftarrow>its. sint (Size (ItemValue it)))"
    using Cons.prems(5) by (intro sum_list_nonneg) auto
  have fit: "total_size (heap lru) (list_c lru) + sint (Size (ItemValue it)) \<le> uint (capacity lru)"
    using Cons.prems(6) rest by simp
  from addNew_fits [OF Cons.prems(1,2) abs nn fit, of "clock i"]
  obtain p where r: "addNew (Key it) (ItemValue it) (clock i) lru = Inr p"
    and cp: "consistent p" and xp: "exact p"
    and ip: "Items p = Item (Key it) (ItemValue it) # Items lru"
    and capp: "capacity p = capacity lru"
    and tabp: "table p = (table lru)(Key it \<mapsto> next_elem lru)"
    and totp: "total_size (heap p) (list_c p) =
                 total_size (heap lru) (list_c lru) + sint (Size (ItemValue it))"
    by blast
  have d: "distinct (map Key its)" using Cons.prems(3) by simp
  have ne: "Key it' \<noteq> Key it" if "it' \<in> set its" for it'
  proof
    assume "Key it' = Key it"
    then have "Key it \<in> Key ` set its" using that by (metis imageI)
    then show False using Cons.prems(3) by simp
  qed
  have a: "\<forall>it' \<in> set its. table p (Key it') = None"
    using Cons.prems(4) ne by (simp add: tabp)
  have n: "\<forall>it' \<in> set its. 0 \<le> sint (Size (ItemValue it'))" using Cons.prems(5) by simp
  have f: "total_size (heap p) (list_c p) + (\<Sum>it\<leftarrow>its. sint (Size (ItemValue it)))
             \<le> uint (capacity p)"
    using Cons.prems(6) by (simp add: totp capp)
  from Cons.IH [OF cp xp d a n f, of "Suc i"]
  obtain lru' where "loadLoop its clock (Suc i) p = Inr lru'" "consistent lru'"
    "Items lru' = rev its @ Items p" "capacity lru' = capacity p" by blast
  then show ?case using abs r ip capp by simp
qed

lemma Items_sizes:
  "sizes_cached lru \<Longrightarrow>
     (\<Sum>it\<leftarrow>Items lru. sint (Size (ItemValue it))) = total_size (heap lru) (list_c lru)"
proof -
  assume s: "sizes_cached lru"
  have "(\<Sum>e\<leftarrow>list_c lru. sint (Size (value_e (heap lru e)))) =
        (\<Sum>e\<leftarrow>list_c lru. sint (size_e (heap lru e)))"
    by (rule arg_cong [where f = sum_list], rule map_cong [OF refl])
      (use s in \<open>simp add: sizes_cached_def\<close>)
  then show ?thesis by (simp add: Items_def total_size_def comp_def)
qed

text \<open>
  C6, amended. Take a consistent state whose entries cache the sizes their values report,
  with cached sizes that are non-negative and add up, as integers, to the accounted size,
  and with the accounted size within the capacity. Let \<open>SaveItems\<close> write the stream
  \<open>w\<close> and let the decoder give back from \<open>w\<close> the items that were encoded. Then
  \<open>LoadItems\<close> of \<open>w\<close> into a fresh cache of the same capacity returns no error and a
  cache with the same set of items; its order from the front is the saved order reversed.
\<close>

theorem save_load_roundtrip:
  assumes c: "consistent lru" and x: "exact lru" and sc: "sizes_cached lru"
    and le: "size_c lru \<le> capacity lru"
    and save: "SaveItems encode lru = Inr w" and codec: "decode w = Inr (Items lru)"
  shows "\<exists>lru'. LoadItems decode w clock (NewLRUCache (capacity lru)) = Inr (None, lru') \<and>
           set (Items lru') = set (Items lru) \<and> Items lru' = rev (Items lru) \<and>
           consistent lru' \<and> capacity lru' = capacity lru"
proof -
  let ?n = "NewLRUCache (capacity lru)"
  have n: "\<forall>y \<in> set (list_c lru). 0 \<le> sint (size_e (heap lru y))"
    and u: "uint (size_c lru) = total_size (heap lru) (list_c lru)"
    using x by (simp_all add: exact_def)
  have 1: "consistent ?n" by (rule consistent_NewLRUCache)
  have 2: "exact ?n" by (simp add: exact_def NewLRUCache_def total_size_def)
  have "map Key (Items lru) = Keys lru" by (simp add: Items_def Keys_def comp_def)
  then have 3: "distinct (map Key (Items lru))" using consistent_distinct_Keys [OF c] by simp
  have 4: "\<forall>it \<in> set (Items lru). table ?n (Key it) = None" by (simp add: NewLRUCache_def)
  have 5: "\<forall>it \<in> set (Items lru). 0 \<le> sint (Size (ItemValue it))"
    using n sc by (auto simp: Items_def sizes_cached_def)
  have "uint (size_c lru) \<le> uint (capacity lru)" using le by (simp add: word_le_def)
  then have 6: "total_size (heap ?n) (list_c ?n) + (\<Sum>it\<leftarrow>Items lru. sint (Size (ItemValue it)))
       \<le> uint (capacity ?n)"
    using u by (simp add: Items_sizes [OF sc]) (simp add: NewLRUCache_def total_size_def)
  from loadLoop_fresh [OF 1 2 3 4 5 6, of clock 0]
  obtain lru' where r: "loadLoop (Items lru) clock 0 ?n = Inr lru'" and c': "consistent lru'"
    and i: "Items lru' = rev (Items lru) @ Items ?n" and cap: "capacity lru' = capacity ?n" by blast
  have e: "Items ?n = []" by (simp add: Items_def NewLRUCache_def)
  have "LoadItems decode w clock ?n = Inr (None, lru')"
    using codec r by (simp add: LoadItems_def)
  moreover have "capacity ?n = capacity lru" by (simp add: NewLRUCache_def)
  ultimately show ?thesis using c' i e cap by auto
qed

lemma example_exact: "exact example_cache"
  by (simp add: exact_def example_cache_def total_size_def)

lemma example_sizes_cached: "sizes_cached example_cache"
  by (simp add: sizes_cached_def example_cache_def)

theorem save_load_roundtrip_witness:
  "consistent example_cache \<and> exact example_cache \<and> sizes_cached example_cache \<and>
   size_c example_cache \<le> capacity example_cache \<and>
   SaveItems Inr example_cache = Inr [Item ''b'' (Value ''y'' 3), Item ''a'' (Value ''x'' 2)] \<and>
   (\<exists>lru'. LoadItems Inr [Item ''b'' (Value ''y'' 3), Item ''a'' (Value ''x'' 2)] (\<lambda>i. 40 + i)
             (NewLRUCache 8) = Inr (None, lru') \<and>
      Items lru' = [Item ''a'' (Value ''x'' 2), Item ''b'' (Value ''y'' 3)] \<and>
      set (Items lru') = set (Items example_cache))"
proof -
  have le: "size_c example_cache \<le> capacity example_cache" by (simp add: example_cache_def)
  have it: "Items example_cache = [Item ''b'' (Value ''y'' 3), Item ''a'' (Value ''x'' 2)]"
    by (simp add: Items_def example_cache_def)
  have sv: "SaveItems Inr example_cache = Inr [Item ''b'' (Value ''y'' 3), Item ''a'' (Value ''x'' 2)]"
    by (simp add: SaveItems_def it)
  have cd: "Inr [Item ''b'' (Value ''y'' 3), Item ''a'' (Value ''x'' 2)] =
      (Inr (Items example_cache) :: error + Item list)" by (simp add: it)
  have cap: "capacity example_cache = 8" by (simp add: example_cache_def)
  from save_load_roundtrip [where decode = Inr and encode = Inr and clock = "\<lambda>i. 40 + i",
      OF example_consistent example_exact example_sizes_cached le sv cd]
  obtain lru' where
    "LoadItems Inr [Item ''b'' (Value ''y'' 3), Item ''a'' (Value ''x'' 2)] (\<lambda>i. 40 + i)
             (NewLRUCache (capacity example_cache)) = Inr (None, lru')"
    "set (Items lru') = set (Items example_cache)" "Items lru' = rev (Items example_cache)"
    by blast
  then have "\<exists>lru'. LoadItems Inr [Item ''b'' (Value ''y'' 3), Item ''a'' (Value ''x'' 2)] (\<lambda>i. 40 + i)
             (NewLRUCache 8) = Inr (None, lru') \<and>
      Items lru' = [Item ''a'' (Value ''x'' 2), Item ''b'' (Value ''y'' 3)] \<and>
      set (Items lru') = set (Items example_cache)"
    unfolding cap it by auto
  with example_consistent example_exact example_sizes_cached le sv show ?thesis by blast
qed

text \<open>
  C6, as stated, fails on a state that the public operations reach with non-negative sizes
  once the accounting has wrapped around. With capacity \<open>2 ^ 63 + 1\<close>, the entries
  \<open>k1\<close> (size \<open>2 ^ 63 - 1\<close>), \<open>k3\<close> (size 2) and \<open>k2\<close> (size \<open>2 ^ 63 - 1\<close>) are
  all kept, the accounted size being 0; after \<open>Get k1\<close> the saved order is \<open>k1\<close>,
  \<open>k2\<close>, \<open>k3\<close>. Loading that stream into a fresh cache of the same capacity evicts
  \<open>k1\<close> when \<open>k2\<close> arrives: the loaded cache holds \<open>k3\<close> and \<open>k2\<close> only.
\<close>

theorem save_load_roundtrip_counterexample:
  "\<exists>lru lru'.
     run Inr [OpSet ''k1'' (Value ''x'' 0x7FFFFFFFFFFFFFFF) 1, OpSet ''k3'' (Value ''z'' 2) 2,
              OpSet ''k2'' (Value ''y'' 0x7FFFFFFFFFFFFFFF) 3, OpGet ''k1'' 4]
       (NewLRUCache 0x8000000000000001) = Inr lru \<and>
     Items lru = [Item ''k1'' (Value ''x'' 0x7FFFFFFFFFFFFFFF),
                  Item ''k2'' (Value ''y'' 0x7FFFFFFFFFFFFFFF), Item ''k3'' (Value ''z'' 2)] \<and>
     SaveItems Inr lru = (Inr (Items lru) :: error + Item list) \<and>
     LoadItems Inr (Items lru) (\<lambda>i. 10 + i) (NewLRUCache (capacity lru)) = Inr (None, lru') \<and>
     Items lru' = [Item ''k3'' (Value ''z'' 2), Item ''k2'' (Value ''y'' 0x7FFFFFFFFFFFFFFF)] \<and>
     Item ''k1'' (Value ''x'' 0x7FFFFFFFFFFFFFFF) \<in> set (Items lru) \<and>
     Item ''k1'' (Value ''x'' 0x7FFFFFFFFFFFFFFF) \<notin> set (Items lru') \<and>
     set (Items lru') \<noteq> set (Items lru)"
proof -
  let ?k1 = "Item ''k1'' (Value ''x'' 0x7FFFFFFFFFFFFFFF)"
  let ?k2 = "Item ''k2'' (Value ''y'' 0x7FFFFFFFFFFFFFFF)"
  let ?k3 = "Item ''k3'' (Value ''z'' 2)"
  have "\<exists>lru lru'.
     run Inr [OpSet ''k1'' (Value ''x'' 0x7FFFFFFFFFFFFFFF) 1, OpSet ''k3'' (Value ''z'' 2) 2,
              OpSet ''k2'' (Value ''y'' 0x7FFFFFFFFFFFFFFF) 3, OpGet ''k1'' 4]
       (NewLRUCache 0x8000000000000001) = Inr lru \<and>
     Items lru = [?k1, ?k2, ?k3] \<and>
     SaveItems Inr lru = (Inr (Items lru) :: error + Item list) \<and>
     LoadItems Inr (Items lru) (\<lambda>i. 10 + i) (NewLRUCache (capacity lru)) = Inr (None, lru') \<and>
     Items lru' = [?k3, ?k2]"
    by (simp add: Set_def Get_def addNew_def NewLRUCache_def Let_def PushFront_def
        moveToFront_def MoveToFront_def uint64_of_int_def checkCapacity_fits checkCapacity_over
        evict_def Remove_def Items_def SaveItems_def LoadItems_def)
  then obtain lru lru' where
    r: "run Inr [OpSet ''k1'' (Value ''x'' 0x7FFFFFFFFFFFFFFF) 1, OpSet ''k3'' (Value ''z'' 2) 2,
              OpSet ''k2'' (Value ''y'' 0x7FFFFFFFFFFFFFFF) 3, OpGet ''k1'' 4]
       (NewLRUCache 0x8000000000000001) = Inr lru"
    and i: "Items lru = [?k1, ?k2, ?k3]"
    and sv: "SaveItems Inr lru = (Inr (Items lru) :: error + Item list)"
    and ld: "LoadItems Inr (Items lru) (\<lambda>i. 10 + i) (NewLRUCache (capacity lru)) = Inr (None, lru')"
    and i': "Items lru' = [?k3, ?k2]"
    by blast
  have m: "?k1 \<in> set (Items lru)" unfolding i by simp
  have n: "?k1 \<notin> set (Items lru')" unfolding i' by simp
  from m n have ne: "set (Items lru') \<noteq> set (Items lru)" by blast
  from r i sv ld i' m n ne show ?thesis by blast
qed

end
